theory Spec2Isabelle
  imports Complex_Main "HOL-Library.Word"
begin

unbundle bit_operations_syntax

section \<open>Data model of \<open>crc_benchmark.py\<close>\<close>

text \<open>
  The benchmark runs checksum algorithms over one byte buffer, in chunks of a swept size,
  as a number of identical tasks, and prints one row of statistics per
  (algorithm, chunk size) combination.

  Conventions of the embedding:
  \<^item> Python's unbounded integers are \<open>int\<close>; a byte buffer is a list of 8-bit words.
  \<^item> Python's floats (time stamps, durations, speeds) are idealised as \<open>real\<close>:
    rounding, overflow, infinities and NaN are outside the model, so nothing is stated
    here about the digits a float computation returns. A float division by zero
    raises \<open>ZeroDivisionError\<close> in Python, which the model writes out.
  \<^item> Every exception the code can raise is a value of \<open>error\<close>; a function that can
    raise returns \<open>error + 'a\<close>, with \<open>Inl\<close> the exception.
  \<^item> \<open>time.time()\<close> is an external clock. The model takes the clock as a function
    from the number of readings made so far to the value read, and threads that
    number through every function that reads the clock.
  \<^item> The checksum functions of \<open>binascii\<close>, \<open>zlib\<close>, \<open>crc32c\<close> and \<open>xxhash\<close>, the
    \<open>multiprocessing\<close> pools and \<open>argparse\<close> are external libraries: they are
    parameters of the model.
\<close>

datatype error =
    KeyError string
  | ValueError
  | ZeroDivisionError
  | IndexError
  | IOError
  | TypeError
  | DifferentChecksums string "int list"
    \<comment> \<open>\<open>Exception("Different checksum results obtained for %s: %r" % (variant, crcs))\<close>\<close>

type_synonym byte = "8 word"
type_synonym bytes = "byte list"

text \<open>\<open>checksum_info = namedtuple('checksum_info', 'name init method final')\<close>; the
  running state of an algorithm is of any one type \<open>'s\<close>.\<close>

record 's checksum_info =
  name :: string
  init :: "unit \<Rightarrow> 's"
  "method" :: "bytes \<Rightarrow> 's \<Rightarrow> 's"
  final :: "'s \<Rightarrow> int"

text \<open>The registry \<open>checksums\<close> is a dictionary; it is iterated as well as looked up, so
  it is an association list in iteration order.\<close>

type_synonym 's registry = "(string \<times> 's checksum_info) list"

text \<open>The registry as the module builds it. The three entries of the standard library
  are always present; the \<open>crc32c\<close> entry is present when that module can be imported
  (\<open>Some\<close>). All four keep an integer state, start from 0 and mask the result to 32 bits.\<close>

definition checksums ::
  "(bytes \<Rightarrow> int \<Rightarrow> int) \<Rightarrow> (bytes \<Rightarrow> int \<Rightarrow> int) \<Rightarrow> (bytes \<Rightarrow> int \<Rightarrow> int) \<Rightarrow>
   (bytes \<Rightarrow> int \<Rightarrow> int) option \<Rightarrow> int registry" where
  "checksums binascii_crc32 zlib_crc32 zlib_adler32 crc32c =
     [(''crc32'', \<lparr>name = ''binascii's crc32 implementation'', init = (\<lambda>_. 0),
                   method = binascii_crc32, final = (\<lambda>x. x AND 0xffffffff)\<rparr>),
      (''crc32z'', \<lparr>name = ''zlib's crc32 implementation'', init = (\<lambda>_. 0),
                    method = zlib_crc32, final = (\<lambda>x. x AND 0xffffffff)\<rparr>),
      (''adler32'', \<lparr>name = ''zlib's adler32 implementation'', init = (\<lambda>_. 0),
                     method = zlib_adler32, final = (\<lambda>x. x AND 0xffffffff)\<rparr>)]
     @ (case crc32c of
          None \<Rightarrow> []
        | Some crc32c_crc32 \<Rightarrow>
            [(''crc32c'', \<lparr>name = ''crc32c's crc32c implementation'', init = (\<lambda>_. 0),
                           method = crc32c_crc32, final = (\<lambda>x. x AND 0xffffffff)\<rparr>)])"

text \<open>The \<open>xxhash32\<close> entry, registered when \<open>xxhash\<close> can be imported, keeps a hasher
  object as its state: \<open>xxh32\<close> makes a fresh one, \<open>update\<close> feeds it a block and
  \<open>intdigest\<close> reads it. Every function below is polymorphic in the state, so it runs
  on this descriptor as on the integer ones.\<close>

definition update_xxhash :: "('h \<Rightarrow> bytes \<Rightarrow> 'h) \<Rightarrow> bytes \<Rightarrow> 'h \<Rightarrow> 'h" where
  "update_xxhash update x crc = update crc x"

definition xxhash32_info ::
  "(unit \<Rightarrow> 'h) \<Rightarrow> ('h \<Rightarrow> bytes \<Rightarrow> 'h) \<Rightarrow> ('h \<Rightarrow> int) \<Rightarrow> 'h checksum_info" where
  "xxhash32_info xxh32 update intdigest =
     \<lparr>name = ''xxhash's xxhash32 implementation'', init = xxh32,
      method = update_xxhash update, final = (\<lambda>x. intdigest x AND 0xffffffff)\<rparr>"

text \<open>\<open>checksums[variant]\<close>: a missing key raises \<open>KeyError\<close>.\<close>

definition lookup :: "'s registry \<Rightarrow> string \<Rightarrow> error + 's checksum_info" where
  "lookup reg variant =
     (case map_of reg variant of None \<Rightarrow> Inl (KeyError variant) | Some info \<Rightarrow> Inr info)"

section \<open>Chunking\<close>

text \<open>\<open>range(start, stop, step)\<close> for a step other than 0: ascending for a positive
  step, descending for a negative one.\<close>

function py_range :: "int \<Rightarrow> int \<Rightarrow> int \<Rightarrow> int list" where
  "py_range start stop step =
     (if 0 < step \<and> start < stop then start # py_range (start + step) stop step
      else if step < 0 \<and> stop < start then start # py_range (start + step) stop step
      else [])"
  by pat_completeness auto
termination
  by (relation "measure (\<lambda>(start, stop, step).
        nat (if 0 < step then stop - start else start - stop))") auto

declare py_range.simps [simp del]

text \<open>\<open>range\<close> raises \<open>ValueError\<close> on a step of 0.\<close>

definition range3 :: "int \<Rightarrow> int \<Rightarrow> int \<Rightarrow> error + int list" where
  "range3 start stop step = (if step = 0 then Inl ValueError else Inr (py_range start stop step))"

text \<open>\<open>seq[i:j]\<close>: a negative index counts from the end, and both indices are clamped
  to the sequence.\<close>

definition slice_index :: "nat \<Rightarrow> int \<Rightarrow> nat" where
  "slice_index n i = (if i < 0 then nat (max (i + int n) 0) else min (nat i) n)"

definition py_slice :: "'a list \<Rightarrow> int \<Rightarrow> int \<Rightarrow> 'a list" where
  "py_slice seq i j =
     (let lo = slice_index (length seq) i; hi = slice_index (length seq) j
      in take (hi - lo) (drop lo seq))"

text \<open>\<open>chunker(seq, size)\<close>: the slices \<open>seq[pos:pos + size]\<close> for \<open>pos\<close> in
  \<open>range(0, len(seq), size)\<close>.\<close>

definition chunker :: "'a list \<Rightarrow> int \<Rightarrow> error + 'a list list" where
  "chunker seq size' =
     (case range3 0 (int (length seq)) size' of
        Inl e \<Rightarrow> Inl e
      | Inr positions \<Rightarrow> Inr (map (\<lambda>pos. py_slice seq pos (pos + size')) positions))"

section \<open>The checksum of a buffer\<close>

text \<open>\<open>get_checksum(bufsize, data, variant)\<close>: look the algorithm up, start from its
  initial state, update it with every block in turn, finalise once.\<close>

definition get_checksum :: "'s registry \<Rightarrow> int \<Rightarrow> bytes \<Rightarrow> string \<Rightarrow> error + int" where
  "get_checksum reg bufsize data variant =
     (case lookup reg variant of
        Inl e \<Rightarrow> Inl e
      | Inr crc_info \<Rightarrow>
          (let crc_method = method crc_info;
               crc = init crc_info ()
           in case range3 0 (int (length data)) bufsize of
                Inl e \<Rightarrow> Inl e
              | Inr positions \<Rightarrow>
                  (let crc = foldl (\<lambda>crc block. crc_method block crc) crc
                               (map (\<lambda>pos. py_slice data pos (pos + bufsize)) positions)
                   in Inr (final crc_info crc))))"

text \<open>The clock: the \<open>n\<close>-th call of \<open>time.time()\<close> (counted from 0) returns \<open>clk n\<close>.\<close>

type_synonym clock = "nat \<Rightarrow> real"

text \<open>A task's result: (checksum, start time, elapsed time).\<close>

type_synonym task_result = "int \<times> real \<times> real"

text \<open>\<open>checksum_data(data, bufsize, variant)\<close>, started when \<open>n\<close> readings of the clock
  have been made. It returns the result and the number of readings made by then.\<close>

definition checksum_data ::
  "'s registry \<Rightarrow> clock \<Rightarrow> nat \<Rightarrow> bytes \<Rightarrow> int \<Rightarrow> string \<Rightarrow> error + (task_result \<times> nat)" where
  "checksum_data reg clk n data bufsize variant =
     (if bufsize = 0 then
        (let start = clk n in
         case lookup reg variant of
           Inl e \<Rightarrow> Inl e
         | Inr crc_info \<Rightarrow>
             (let crc = final crc_info (method crc_info data (init crc_info ()))
              in Inr ((crc, start, clk (n + 1) - start), n + 2)))
      else
        (let start = clk n in
         case get_checksum reg bufsize data variant of
           Inl e \<Rightarrow> Inl e
         | Inr crc \<Rightarrow> Inr ((crc, start, clk (n + 1) - start), n + 2)))"

text \<open>The checksum of a task's outcome, or the exception it raised.\<close>

definition checksum_of :: "error + (task_result \<times> nat) \<Rightarrow> error + int" where
  "checksum_of r = (case r of Inl e \<Rightarrow> Inl e | Inr ((crc, start, elapsed), n) \<Rightarrow> Inr crc)"

section \<open>Statistics\<close>

text \<open>\<open>sum(x)\<close> adds from the left, starting from 0.\<close>

definition py_sum :: "real list \<Rightarrow> real" where
  "py_sum x = foldl (+) 0 x"

text \<open>\<open>mean_and_stddev(x)\<close> in exact arithmetic; the division by \<open>len(x)\<close> raises on an
  empty sequence. The code computes on floats, where every operation rounds and
  \<open>** 2\<close> can raise \<open>OverflowError\<close>: the values returned here are those of the code only
  where its arithmetic is exact.\<close>

definition mean_and_stddev :: "real list \<Rightarrow> error + (real \<times> real)" where
  "mean_and_stddev x =
     (if length x = 0 then Inl ZeroDivisionError
      else
        (let mean = py_sum x / real (length x);
             stddev = sqrt (py_sum (map (\<lambda>x'. (x' - mean) ^ 2) x) / real (length x))
         in Inr (mean, stddev)))"

section \<open>Pools\<close>

text \<open>The namespace \<open>opts\<close> that \<open>argparse\<close> returns for the options \<open>main\<close> declares:
  \<open>-n\<close> is any integer (\<open>type=int\<close>, default 1), \<open>-f\<close> a file name or \<open>None\<close>, \<open>-m\<close> an
  integer, \<open>-t\<close>, \<open>-p\<close> and \<open>-P\<close> flags.\<close>

record opts =
  number_tasks :: int
  "file" :: "string option"
  megabytes :: int
  threads :: bool
  processes :: bool
  processes_copy :: bool

text \<open>A task takes its index and the number of clock readings made so far.\<close>

type_synonym task = "int \<Rightarrow> nat \<Rightarrow> error + (task_result \<times> nat)"

text \<open>The pools \<open>_get_pool\<close> can return: the serial one, a thread pool of a number of
  workers, or a process pool of a number of workers whose initialiser stores the shared
  memory value (\<open>None\<close> when the pool has no initialiser).\<close>

datatype pool = Serial_pool | ThreadPool int | ProcessPool int "bytes option"

text \<open>\<open>_serial_pool.map(f, iterable)\<close>: \<open>[f(i) for i in iterable]\<close>, in order.\<close>

fun serial_pool_map :: "task \<Rightarrow> int list \<Rightarrow> nat \<Rightarrow> error + (task_result list \<times> nat)" where
  "serial_pool_map f [] n = Inr ([], n)"
| "serial_pool_map f (i # iterable) n =
     (case f i n of
        Inl e \<Rightarrow> Inl e
      | Inr (r, n') \<Rightarrow>
          (case serial_pool_map f iterable n' of
             Inl e \<Rightarrow> Inl e
           | Inr (rs, n'') \<Rightarrow> Inr (r # rs, n'')))"

text \<open>The \<open>map\<close> of a pool. The thread and process pools are \<open>multiprocessing\<close>'s: their
  \<open>map\<close> is the parameter \<open>mp_map\<close>.\<close>

type_synonym mp_map = "pool \<Rightarrow> task \<Rightarrow> int list \<Rightarrow> nat \<Rightarrow> error + (task_result list \<times> nat)"

definition pool_map :: "mp_map \<Rightarrow> pool \<Rightarrow> task \<Rightarrow> int list \<Rightarrow> nat \<Rightarrow> error + (task_result list \<times> nat)" where
  "pool_map mp pool f iterable n =
     (case pool of
        Serial_pool \<Rightarrow> serial_pool_map f iterable n
      | _ \<Rightarrow> mp pool f iterable n)"

text \<open>\<open>_get_pool(opts, data, size_mb)\<close>. With \<open>-p\<close> the data is copied to shared memory
  and the caller's buffer is emptied (\<open>del data[:]\<close>); the clock is read three times for
  the message printed. \<open>ThreadPool\<close> and \<open>Pool\<close> raise \<open>ValueError\<close> for a number of
  workers below 1. It returns the pool, the caller's buffer afterwards and the number
  of clock readings made.\<close>

definition get_pool :: "opts \<Rightarrow> bytes \<Rightarrow> nat \<Rightarrow> error + (pool \<times> bytes \<times> nat)" where
  "get_pool opts data n =
     (if threads opts then
        (if number_tasks opts < 1 then Inl ValueError
         else Inr (ThreadPool (number_tasks opts), data, n))
      else if processes opts then
        (if number_tasks opts < 1 then Inl ValueError
         else Inr (ProcessPool (number_tasks opts) (Some data), [], n + 3))
      else if processes_copy opts then
        (if number_tasks opts < 1 then Inl ValueError
         else Inr (ProcessPool (number_tasks opts) None, data, n))
      else Inr (Serial_pool, data, n))"

text \<open>The global \<open>_shmem_val\<close> as a worker of the pool sees it.\<close>

definition shmem_val :: "pool \<Rightarrow> bytes option" where
  "shmem_val pool = (case pool of ProcessPool workers val \<Rightarrow> val | _ \<Rightarrow> None)"

text \<open>\<open>_checksum_data_shmem_proc(bufsize, variant, _)\<close>. While \<open>_shmem_val\<close> is \<open>None\<close>
  the call fails: at the registry for an unknown name, else with a \<open>TypeError\<close> on
  \<open>None\<close>.\<close>

definition checksum_data_shmem_proc ::
  "'s registry \<Rightarrow> clock \<Rightarrow> bytes option \<Rightarrow> int \<Rightarrow> string \<Rightarrow> task" where
  "checksum_data_shmem_proc reg clk shmem bufsize variant i n =
     (case shmem of
        Some val \<Rightarrow> checksum_data reg clk n val bufsize variant
      | None \<Rightarrow> (case lookup reg variant of Inl e \<Rightarrow> Inl e | Inr crc_info \<Rightarrow> Inl TypeError))"

definition checksum_data_proc ::
  "'s registry \<Rightarrow> clock \<Rightarrow> bytes \<Rightarrow> int \<Rightarrow> string \<Rightarrow> task" where
  "checksum_data_proc reg clk data bufsize variant i n =
     checksum_data reg clk n data bufsize variant"

text \<open>\<open>_get_checksum_function(opts, data, bufsize, variant)\<close>.\<close>

definition get_checksum_function ::
  "'s registry \<Rightarrow> clock \<Rightarrow> pool \<Rightarrow> opts \<Rightarrow> bytes \<Rightarrow> int \<Rightarrow> string \<Rightarrow> task" where
  "get_checksum_function reg clk pool opts data bufsize variant =
     (if processes opts then checksum_data_shmem_proc reg clk (shmem_val pool) bufsize variant
      else if processes_copy opts then checksum_data_proc reg clk data bufsize variant
      else (\<lambda>_ n. checksum_data reg clk n data bufsize variant))"

section \<open>The benchmark driver\<close>

text \<open>The values of one printed row.\<close>

record row =
  row_variant :: string
  row_chksum :: int
  row_chksum_int :: int
  row_bufsize :: int
  mean_speed :: real
  stddev_speed :: real
  mean_time :: real
  stddev_time :: real
  mean_setup :: real
  stddev_setup :: real

text \<open>\<open>speeds = [size_mb / t for t in times]\<close>: the first \<open>t\<close> that is 0 raises.\<close>

fun speeds_of :: "real \<Rightarrow> real list \<Rightarrow> error + real list" where
  "speeds_of size_mb [] = Inr []"
| "speeds_of size_mb (t # times') =
     (if t = 0 then Inl ZeroDivisionError
      else case speeds_of size_mb times' of
             Inl e \<Rightarrow> Inl e
           | Inr speeds \<Rightarrow> Inr (size_mb / t # speeds))"

text \<open>\<open>all(x == crcs[0] for x in crcs)\<close>; on an empty list nothing is compared and
  \<open>crcs[0]\<close> is not read.\<close>

definition all_equal_first :: "int list \<Rightarrow> bool" where
  "all_equal_first crcs = (case crcs of [] \<Rightarrow> True | crc0 # _ \<Rightarrow> list_all (\<lambda>x. x = crc0) crcs)"

text \<open>The body of the loop of \<open>do_benchmarking\<close> from the results \<open>res\<close> of the pool's
  \<open>map\<close> on: the four lists, the consistency check, \<open>crcs[0]\<close>, the statistics, the row.\<close>

definition row_of_results :: "string \<Rightarrow> int \<Rightarrow> real \<Rightarrow> real \<Rightarrow> task_result list \<Rightarrow> error + row" where
  "row_of_results variant bufsize size_mb t0 res =
     (let crcs = map (\<lambda>x. fst x) res;
          setup_times = map (\<lambda>x. fst (snd x) - t0) res;
          times' = map (\<lambda>x. snd (snd x)) res
      in case speeds_of size_mb times' of
           Inl e \<Rightarrow> Inl e
         | Inr speeds \<Rightarrow>
             if \<not> all_equal_first crcs then Inl (DifferentChecksums variant crcs)
             else
               (case crcs of
                  [] \<Rightarrow> Inl IndexError
                | crc # _ \<Rightarrow>
                    (case mean_and_stddev times' of
                       Inl e \<Rightarrow> Inl e
                     | Inr (mean_time', stddev_time') \<Rightarrow>
                         (case mean_and_stddev setup_times of
                            Inl e \<Rightarrow> Inl e
                          | Inr (mean_setup', stddev_setup') \<Rightarrow>
                              (case mean_and_stddev speeds of
                                 Inl e \<Rightarrow> Inl e
                               | Inr (mean_speed', stddev_speed') \<Rightarrow>
                                   Inr \<lparr>row_variant = variant,
                                        row_chksum = crc AND 0xffffffff,
                                        row_chksum_int = crc,
                                        row_bufsize = bufsize,
                                        mean_speed = mean_speed',
                                        stddev_speed = stddev_speed',
                                        mean_time = mean_time',
                                        stddev_time = stddev_time',
                                        mean_setup = mean_setup',
                                        stddev_setup = stddev_setup'\<rparr>)))))"

text \<open>\<open>bufsize = 2 ** bufsize_log2 if bufsize_log2 > 0 else 0\<close>.\<close>

definition bufsize_of :: "int \<Rightarrow> int" where
  "bufsize_of bufsize_log2 = (if bufsize_log2 > 0 then 2 ^ nat bufsize_log2 else 0)"

text \<open>One pass through the loop body for \<open>(variant, bufsize_log2)\<close>.\<close>

definition loop_body ::
  "mp_map \<Rightarrow> 's registry \<Rightarrow> clock \<Rightarrow> pool \<Rightarrow> opts \<Rightarrow> bytes \<Rightarrow> real \<Rightarrow>
   string \<times> int \<Rightarrow> nat \<Rightarrow> error + (row \<times> nat)" where
  "loop_body mp reg clk pool opts data size_mb combination n =
     (case combination of (variant, bufsize_log2) \<Rightarrow>
        (let bufsize = bufsize_of bufsize_log2;
             checksum_data' = get_checksum_function reg clk pool opts data bufsize variant;
             t0 = clk n
         in case pool_map mp pool checksum_data' (py_range 0 (number_tasks opts) 1) (n + 1) of
              Inl e \<Rightarrow> Inl e
            | Inr (res, n') \<Rightarrow>
                (case row_of_results variant bufsize size_mb t0 res of
                   Inl e \<Rightarrow> Inl e
                 | Inr r \<Rightarrow> Inr (r, n'))))"

text \<open>The \<open>for\<close> loop: the rows printed, and the exception that ended the loop early,
  if one did.\<close>

fun for_loop ::
  "(string \<times> int \<Rightarrow> nat \<Rightarrow> error + (row \<times> nat)) \<Rightarrow> (string \<times> int) list \<Rightarrow> nat \<Rightarrow>
   row list \<times> error option" where
  "for_loop body [] n = ([], None)"
| "for_loop body (combination # rest) n =
     (case body combination n of
        Inl e \<Rightarrow> ([], Some e)
      | Inr (r, n') \<Rightarrow>
          (case for_loop body rest n' of (rows, raised) \<Rightarrow> (r # rows, raised)))"

text \<open>\<open>itertools.product(checksums, list(range(9, 21)) + [0])\<close>.\<close>

definition combinations :: "'s registry \<Rightarrow> (string \<times> int) list" where
  "combinations reg = List.product (map fst reg) (py_range 9 21 1 @ [0])"

text \<open>\<open>do_benchmarking(opts, data)\<close>, without the text it prints around the rows.\<close>

definition do_benchmarking ::
  "mp_map \<Rightarrow> 's registry \<Rightarrow> clock \<Rightarrow> opts \<Rightarrow> bytes \<Rightarrow> row list \<times> error option" where
  "do_benchmarking mp reg clk opts data =
     (let size_mb = real (length data) / 1024 / 1024
      in case get_pool opts data 0 of
           Inl e \<Rightarrow> ([], Some e)
         | Inr (pool, data', n) \<Rightarrow>
             for_loop (loop_body mp reg clk pool opts data' size_mb) (combinations reg) n)"

text \<open>\<open>main()\<close> from the parsed options on. \<open>fs\<close> is the file system: the contents of the
  files that can be read.\<close>

definition main ::
  "mp_map \<Rightarrow> 's registry \<Rightarrow> clock \<Rightarrow> (string \<Rightarrow> bytes option) \<Rightarrow> opts \<Rightarrow> row list \<times> error option" where
  "main mp reg clk fs opts =
     (case (case file opts of
              Some f \<Rightarrow>
                if f \<noteq> [] then (case fs f of None \<Rightarrow> Inl IOError | Some contents \<Rightarrow> Inr contents)
                else Inr (replicate (nat (1024 * 1024 * megabytes opts)) 0x20)
            | None \<Rightarrow> Inr (replicate (nat (1024 * 1024 * megabytes opts)) 0x20)) of
        Inl e \<Rightarrow> ([], Some e)
      | Inr data \<Rightarrow> do_benchmarking mp reg clk opts data)"

section \<open>The contract of an algorithm\<close>

text \<open>The update of an algorithm is associative across chunk boundaries: starting from
  the initial state, updating with contiguous chunks one after the other gives the
  state that one update with their concatenation gives. This is for any number of
  chunks; an empty buffer is cut into none.\<close>

definition chunk_associative :: "'s checksum_info \<Rightarrow> bool" where
  "chunk_associative A \<longleftrightarrow>
     (\<forall>blocks. foldl (\<lambda>crc block. method A block crc) (init A ()) blocks =
               method A (concat blocks) (init A ()))"


section \<open>Fixtures for concrete runs\<close>

text \<open>A stand-in algorithm, the sum of the bytes modulo \<open>2\<^sup>3\<^sup>2\<close>, registered under the
  three names of the standard library; a clock that advances by one second at every
  reading, and one that stands still.\<close>

definition sum_bytes :: "bytes \<Rightarrow> int \<Rightarrow> int" where
  "sum_bytes block crc = (crc + sum_list (map uint block)) mod 2 ^ 32"

definition sum_registry :: "int registry" where
  "sum_registry = checksums sum_bytes sum_bytes sum_bytes None"

definition tick_clock :: clock where
  "tick_clock n = real n"

definition still_clock :: clock where
  "still_clock n = 0"

definition serial_opts :: "int \<Rightarrow> opts" where
  "serial_opts n = \<lparr>number_tasks = n, file = None, megabytes = 0,
                     threads = False, processes = False, processes_copy = False\<rparr>"

definition thread_opts :: "int \<Rightarrow> opts" where
  "thread_opts n = \<lparr>number_tasks = n, file = None, megabytes = 0,
                     threads = True, processes = False, processes_copy = False\<rparr>"

text \<open>A \<open>multiprocessing\<close> that cannot start any worker, and one whose two workers
  return different checksums, each after the elapsed time given.\<close>

definition no_mp :: mp_map where
  "no_mp pool f iterable n = Inl ValueError"

definition racy_mp :: "real \<Rightarrow> mp_map" where
  "racy_mp elapsed pool f iterable n = Inr ([(1, 0, elapsed), (2, 0, elapsed)], n)"





text \<open>A file system with no file.\<close>

definition no_files :: "string \<Rightarrow> bytes option" where
  "no_files f = None"

section \<open>Chunking: the blocks of a buffer\<close>

lemma py_range_pos:
  "0 < step \<Longrightarrow> py_range start stop step =
     map (\<lambda>k. start + int k * step) [0..<nat ((stop - start + step - 1) div step)]"
proof (induction start stop step rule: py_range.induct)
  case (1 start stop step)
  show ?case
  proof (cases "start < stop")
    case True
    define m where "m = nat ((stop - (start + step) + step - 1) div step)"
    have d: "(stop - start + step - 1) div step = (stop - (start + step) + step - 1) div step + 1"
    proof -
      have "stop - start + step - 1 = (stop - (start + step) + step - 1) + step" by simp
      then show ?thesis using \<open>0 < step\<close> by (simp only: div_add_self2)
    qed
    have ge: "0 \<le> (stop - (start + step) + step - 1) div step"
      using True \<open>0 < step\<close> by (simp add: pos_imp_zdiv_nonneg_iff)
    have n: "nat ((stop - start + step - 1) div step) = Suc m"
      unfolding m_def d using ge by simp
    have IH: "py_range (start + step) stop step = map (\<lambda>k. start + step + int k * step) [0..<m]"
      using "1.IH"(1) True \<open>0 < step\<close> unfolding m_def by simp
    have "py_range start stop step = start # py_range (start + step) stop step"
      using True \<open>0 < step\<close> by (subst py_range.simps) simp
    also have "\<dots> = start # map (\<lambda>k. start + step + int k * step) [0..<m]"
      by (simp only: IH)
    also have "\<dots> = map (\<lambda>k. start + int k * step) [0..<Suc m]"
      by (simp add: upt_conv_Cons map_Suc_upt [symmetric] algebra_simps del: upt_Suc)
    finally show ?thesis by (simp only: n)
  next
    case False
    then have "(stop - start + step - 1) div step \<le> (step - 1) div step"
      using \<open>0 < step\<close> by (intro zdiv_mono1) auto
    also have "(step - 1) div step = 0"
      using \<open>0 < step\<close> by (simp add: div_pos_pos_trivial)
    finally have "nat ((stop - start + step - 1) div step) = 0" by simp
    moreover have "py_range start stop step = []"
      using False \<open>0 < step\<close> by (subst py_range.simps) simp
    ultimately show ?thesis by simp
  qed
qed


lemma py_slice_pos:
  assumes "0 \<le> i" "0 \<le> c"
  shows "py_slice seq i (i + c) = take (nat c) (drop (nat i) seq)"
proof -
  have lo: "slice_index (length seq) i = min (nat i) (length seq)"
    using assms by (simp add: slice_index_def)
  have hi: "slice_index (length seq) (i + c) = min (nat i + nat c) (length seq)"
    using assms by (simp add: slice_index_def nat_add_distrib)
  have tk: "take (min k (length xs)) xs = take k xs" for k and xs :: "'a list"
    by (simp add: min_def)
  show ?thesis
  proof (cases "nat i \<le> length seq")
    case True
    then have "min (nat i + nat c) (length seq) - min (nat i) (length seq)
               = min (nat c) (length (drop (nat i) seq))"
      by (auto simp: min_def)
    then show ?thesis
      using True by (simp add: py_slice_def Let_def lo hi min_absorb1 tk del: length_drop)
  next
    case False
    then show ?thesis
      by (simp add: py_slice_def Let_def lo hi)
  qed
qed

lemma block_count:
  assumes "0 < C"
  shows "nat ((int (length D) - 0 + C - 1) div C) = (length D + nat C - 1) div nat C"
proof -
  have "int (length D) - 0 + C - 1 = int (length D + nat C - 1)"
    using assms by (simp add: of_nat_diff)
  moreover have "C = int (nat C)" using assms by simp
  ultimately have "(int (length D) - 0 + C - 1) div C = int ((length D + nat C - 1) div nat C)"
    by (metis zdiv_int)
  then show ?thesis by (simp only: nat_int)
qed

lemma blocks_closed_form:
  assumes "0 < C"
  shows "map (\<lambda>pos. py_slice D pos (pos + C)) (py_range 0 (int (length D)) C) =
         map (\<lambda>k. take (nat C) (drop (k * nat C) D)) [0..<(length D + nat C - 1) div nat C]"
proof -
  have blk: "py_slice D (0 + int k * C) (0 + int k * C + C) = take (nat C) (drop (k * nat C) D)" for k
    using assms by (subst py_slice_pos) (simp_all add: nat_mult_distrib)
  have "map (\<lambda>pos. py_slice D pos (pos + C)) (py_range 0 (int (length D)) C) =
        map (\<lambda>k. py_slice D (0 + int k * C) (0 + int k * C + C))
          [0..<nat ((int (length D) - 0 + C - 1) div C)]"
    by (simp only: py_range_pos [OF assms] map_map comp_def)
  then show ?thesis
    by (simp only: blk block_count [OF assms])
qed

lemma concat_blocks_take:
  "concat (map (\<lambda>k. take c (drop (k * c) D)) [0..<m]) = take (m * c) D"
proof (induction m)
  case 0
  show ?case by simp
next
  case (Suc m)
  have "take (m * c + c) D = take (m * c) D @ take c (drop (m * c) D)"
    by (simp add: take_add)
  with Suc show ?case by (simp add: add.commute)
qed

lemma blocks_cover:
  assumes "0 < (c::nat)"
  shows "length D \<le> ((length D + c - 1) div c) * c"
proof -
  have "length D + c - 1 < ((length D + c - 1) div c) * c + c"
    using assms by (metis add.commute dividend_less_div_times)
  then show ?thesis using assms by simp
qed

lemma concat_blocks:
  assumes "0 < (c::nat)"
  shows "concat (map (\<lambda>k. take c (drop (k * c) D)) [0..<(length D + c - 1) div c]) = D"
  using blocks_cover [OF assms, of D] by (simp add: concat_blocks_take)

lemma blocks_below:
  assumes "0 < (c::nat)" "i < (length D + c - 1) div c"
  shows "i * c + c \<le> length D + c - 1"
proof -
  have "Suc i * c \<le> ((length D + c - 1) div c) * c"
    using assms(2) by (intro mult_le_mono1) simp
  also have "\<dots> \<le> length D + c - 1"
    by (rule div_times_less_eq_dividend)
  finally show ?thesis by simp
qed

lemma block_full:
  assumes "0 < (c::nat)" "Suc i < (length D + c - 1) div c"
  shows "length (take c (drop (i * c) D)) = c"
  using blocks_below [OF assms] assms(1) by simp

lemma block_nonempty:
  assumes "0 < (c::nat)" "i < (length D + c - 1) div c"
  shows "0 < length (take c (drop (i * c) D))"
  using blocks_below [OF assms] assms(1) by simp

lemma chunker_blocks:
  assumes "0 < C"
  shows "chunker D C = Inr (map (\<lambda>k. take (nat C) (drop (k * nat C) D)) [0..<(length D + nat C - 1) div nat C])"
  using assms by (simp add: chunker_def range3_def blocks_closed_form)

lemma get_checksum_blocks:
  assumes "0 < C" "lookup reg variant = Inr A"
  shows "get_checksum reg C D variant =
         Inr (final A (foldl (\<lambda>crc block. method A block crc) (init A ())
                (map (\<lambda>k. take (nat C) (drop (k * nat C) D)) [0..<(length D + nat C - 1) div nat C])))"
  using assms by (simp add: get_checksum_def range3_def blocks_closed_form Let_def)

section \<open>Chunked and whole-buffer checksums\<close>

lemma chunk_associativeI:
  assumes "method A [] (init A ()) = init A ()"
    and "\<And>crc a b. method A (a @ b) crc = method A b (method A a crc)"
  shows "chunk_associative A"
proof -
  have step: "foldl (\<lambda>crc block. method A block crc) (method A a crc) blocks =
        method A (a @ concat blocks) crc" for crc a blocks
  proof (induction blocks arbitrary: a)
    case Nil
    show ?case by simp
  next
    case (Cons b blocks)
    have "foldl (\<lambda>crc block. method A block crc) (method A a crc) (b # blocks) =
          foldl (\<lambda>crc block. method A block crc) (method A (a @ b) crc) blocks"
      by (simp add: assms(2))
    also have "\<dots> = method A ((a @ b) @ concat blocks) crc"
      by (rule Cons.IH)
    finally show ?case by simp
  qed
  have "foldl (\<lambda>crc block. method A block crc) (init A ()) blocks =
        method A (concat blocks) (init A ())" for blocks
    using step [of "[]" "init A ()" blocks] by (simp add: assms(1))
  then show ?thesis by (simp add: chunk_associative_def)
qed

lemma chunk_associative_empty:
  assumes "chunk_associative A"
  shows "method A [] (init A ()) = init A ()"
  using assms [unfolded chunk_associative_def, rule_format, of "[]"] by simp

lemma chunk_associative_two:
  assumes "chunk_associative A"
  shows "method A (a @ b) (init A ()) = method A b (method A a (init A ()))"
  using assms [unfolded chunk_associative_def, rule_format, of "[a, b]"] by simp

lemma checksum_of_chunked:
  "bufsize \<noteq> 0 \<Longrightarrow>
   checksum_of (checksum_data reg clk n data bufsize variant) = get_checksum reg bufsize data variant"
  by (simp add: checksum_of_def checksum_data_def Let_def split: sum.splits)

lemma checksum_of_whole:
  "lookup reg variant = Inr A \<Longrightarrow>
   checksum_of (checksum_data reg clk n data 0 variant) = Inr (final A (method A data (init A ())))"
  by (simp add: checksum_of_def checksum_data_def Let_def)

lemma get_checksum_whole:
  assumes "0 < C" "lookup reg variant = Inr A" "chunk_associative A"
  shows "get_checksum reg C D variant = Inr (final A (method A D (init A ())))"
proof -
  have "foldl (\<lambda>crc block. method A block crc) (init A ())
          (map (\<lambda>k. take (nat C) (drop (k * nat C) D)) [0..<(length D + nat C - 1) div nat C])
        = method A D (init A ())"
  proof -
    have "0 < nat C" using assms(1) by simp
    then have "concat (map (\<lambda>k. take (nat C) (drop (k * nat C) D))
                 [0..<(length D + nat C - 1) div nat C]) = D"
      by (rule concat_blocks)
    with assms(3) show ?thesis
      by (simp only: chunk_associative_def)
  qed
  then show ?thesis
    by (simp only: get_checksum_blocks [OF assms(1,2)])
qed


subsection \<open>The fixtures\<close>

lemma sum_bytes_append: "sum_bytes (a @ b) crc = sum_bytes b (sum_bytes a crc)"
  by (simp add: sum_bytes_def mod_simps add.assoc)

lemma lookup_sum_registry:
  "lookup sum_registry ''adler32'' =
     Inr \<lparr>name = ''zlib's adler32 implementation'', init = (\<lambda>_. 0),
          method = sum_bytes, final = (\<lambda>x. x AND 0xffffffff)\<rparr>"
  by (simp add: lookup_def sum_registry_def checksums_def)

lemma sum_bytes_chunk_associative:
  "chunk_associative \<lparr>name = nm, init = (\<lambda>_. 0), method = sum_bytes, final = f\<rparr>"
  by (rule chunk_associativeI) (simp_all add: sum_bytes_append, simp add: sum_bytes_def)

subsection \<open>The empty buffer\<close>

lemma get_checksum_empty:
  assumes "lookup reg variant = Inr A" "bufsize \<noteq> 0"
  shows "get_checksum reg bufsize [] variant = Inr (final A (init A ()))"
proof -
  have "py_range 0 0 bufsize = []"
    by (subst py_range.simps) simp
  then show ?thesis
    using assms by (simp add: get_checksum_def range3_def Let_def)
qed

section \<open>Tasks of the serial pool\<close>

lemma length_py_range_tasks: "length (py_range 0 N 1) = nat N"
  by (simp add: py_range_pos)




lemma py_range_tasks_3: "py_range 0 3 1 = [0, 1, 2]"
  by (simp add: py_range_pos upt_conv_Cons)

section \<open>The loop body on the results of the tasks\<close>

lemma speeds_of_zero:
  "\<exists>t\<in>set ts. t = 0 \<Longrightarrow> speeds_of size_mb ts = Inl ZeroDivisionError"
  by (induction ts) (auto split: sum.splits)

lemma speeds_of_nonzero:
  "\<forall>t\<in>set ts. t \<noteq> 0 \<Longrightarrow> speeds_of size_mb ts = Inr (map (\<lambda>t. size_mb / t) ts)"
  by (induction ts) auto

lemma all_equal_first_iff:
  "all_equal_first crcs \<longleftrightarrow> (\<forall>x\<in>set crcs. \<forall>y\<in>set crcs. x = y)"
proof (cases crcs)
  case Nil
  then show ?thesis by (simp add: all_equal_first_def)
next
  case (Cons c cs)
  have "all_equal_first crcs \<longleftrightarrow> (\<forall>x\<in>set crcs. x = c)"
    by (simp add: Cons all_equal_first_def list_all_iff)
  also have "\<dots> \<longleftrightarrow> (\<forall>x\<in>set crcs. \<forall>y\<in>set crcs. x = y)"
    using Cons by (metis list.set_intros(1))
  finally show ?thesis .
qed

lemma all_equal_first_results:
  "all_equal_first (map fst res) \<longleftrightarrow> (\<forall>x\<in>set res. \<forall>y\<in>set res. fst x = fst y)"
  unfolding all_equal_first_iff by (simp only: set_map ball_simps)

lemma mean_and_stddev_nonempty:
  "x \<noteq> [] \<Longrightarrow> \<exists>mean stddev. mean_and_stddev x = Inr (mean, stddev)"
  by (simp add: mean_and_stddev_def Let_def)

lemma row_of_results_zero_time:
  assumes "\<exists>r\<in>set res. snd (snd r) = 0"
  shows "row_of_results variant bufsize size_mb t0 res = Inl ZeroDivisionError"
proof -
  have "\<exists>t\<in>set (map (\<lambda>x. snd (snd x)) res). t = 0"
    using assms by force
  then have "speeds_of size_mb (map (\<lambda>x. snd (snd x)) res) = Inl ZeroDivisionError"
    by (rule speeds_of_zero)
  then show ?thesis
    by (simp add: row_of_results_def Let_def)
qed

lemma row_of_results_different:
  assumes "\<forall>r\<in>set res. snd (snd r) \<noteq> 0"
    and "\<not> (\<forall>x\<in>set res. \<forall>y\<in>set res. fst x = fst y)"
  shows "row_of_results variant bufsize size_mb t0 res =
           Inl (DifferentChecksums variant (map fst res))"
proof -
  have "speeds_of size_mb (map (\<lambda>x. snd (snd x)) res) =
          Inr (map (\<lambda>t. size_mb / t) (map (\<lambda>x. snd (snd x)) res))"
    using assms(1) by (intro speeds_of_nonzero) auto
  moreover have "\<not> all_equal_first (map fst res)"
    using assms(2) by (simp only: all_equal_first_results not_False_eq_True)
  ultimately show ?thesis
    by (simp add: row_of_results_def Let_def)
qed

lemma row_of_results_empty:
  "row_of_results variant bufsize size_mb t0 [] = Inl IndexError"
  by (simp add: row_of_results_def all_equal_first_def)

lemma row_of_results_row:
  assumes "\<forall>r\<in>set res. snd (snd r) \<noteq> 0"
    and "\<forall>x\<in>set res. \<forall>y\<in>set res. fst x = fst y"
    and "res \<noteq> []"
  shows "\<exists>r. row_of_results variant bufsize size_mb t0 res = Inr r
           \<and> row_variant r = variant \<and> row_bufsize r = bufsize
           \<and> row_chksum_int r = fst (hd res)"
proof -
  define speeds where "speeds = map (\<lambda>t. size_mb / t) (map (\<lambda>x. snd (snd x)) res)"
  have sp: "speeds_of size_mb (map (\<lambda>x. snd (snd x)) res) = Inr speeds"
    unfolding speeds_def using assms(1) by (intro speeds_of_nonzero) auto
  have eq: "all_equal_first (map fst res)"
    using assms(2) by (simp only: all_equal_first_results)
  obtain crc crcs where crcs: "map fst res = crc # crcs" and crc: "crc = fst (hd res)"
    using assms(3) by (cases res) simp_all
  have "speeds \<noteq> []" using assms(3) by (simp add: speeds_def)
  then obtain m3 s3 where 3: "mean_and_stddev speeds = Inr (m3, s3)"
    using mean_and_stddev_nonempty by blast
  obtain m1 s1 where 1: "mean_and_stddev (map (\<lambda>x. snd (snd x)) res) = Inr (m1, s1)"
    using mean_and_stddev_nonempty [of "map (\<lambda>x. snd (snd x)) res"] assms(3) by auto
  obtain m2 s2 where 2: "mean_and_stddev (map (\<lambda>x. fst (snd x) - t0) res) = Inr (m2, s2)"
    using mean_and_stddev_nonempty [of "map (\<lambda>x. fst (snd x) - t0) res"] assms(3) by auto
  have "row_of_results variant bufsize size_mb t0 res =
          Inr \<lparr>row_variant = variant, row_chksum = crc AND 0xffffffff, row_chksum_int = crc,
               row_bufsize = bufsize, mean_speed = m3, stddev_speed = s3,
               mean_time = m1, stddev_time = s1, mean_setup = m2, stddev_setup = s2\<rparr>"
  proof -
    have eq': "all_equal_first (crc # crcs)"
      using eq by (simp only: crcs)
    show ?thesis
      unfolding row_of_results_def Let_def
      by (simp only: sp eq' crcs 1 2 3 sum.case list.case prod.case not_True_eq_False if_False)
  qed
  then show ?thesis
    by (simp add: crc)
qed

lemma row_of_results_not_different:
  assumes "\<forall>x\<in>set res. \<forall>y\<in>set res. fst x = fst y"
  shows "row_of_results variant bufsize size_mb t0 res \<noteq> Inl (DifferentChecksums v crcs)"
proof (cases "\<exists>r\<in>set res. snd (snd r) = 0")
  case True
  then show ?thesis by (simp add: row_of_results_zero_time)
next
  case False
  show ?thesis
  proof (cases "res = []")
    case True
    then show ?thesis by (simp add: row_of_results_empty)
  next
    case ne: False
    from False have "\<forall>r\<in>set res. snd (snd r) \<noteq> 0" by blast
    from row_of_results_row [OF this assms ne, of variant bufsize size_mb t0]
    obtain r where "row_of_results variant bufsize size_mb t0 res = Inr r" by blast
    then show ?thesis by simp
  qed
qed

section \<open>The loop\<close>

lemma for_loop_abort:
  "body combination n = Inl e \<Longrightarrow> for_loop body (combination # rest) n = ([], Some e)"
  by simp

lemma for_loop_continue:
  "body combination n = Inr (r, n') \<Longrightarrow>
   for_loop body (combination # rest) n =
     (r # fst (for_loop body rest n'), snd (for_loop body rest n'))"
  by (simp add: case_prod_beta)

lemma loop_body_results:
  assumes "pool_map mp pool
             (get_checksum_function reg clk pool opts data (bufsize_of bufsize_log2) variant)
             (py_range 0 (number_tasks opts) 1) (n + 1) = Inr (res, n')"
  shows "loop_body mp reg clk pool opts data size_mb (variant, bufsize_log2) n =
           (case row_of_results variant (bufsize_of bufsize_log2) size_mb (clk n) res of
              Inl e \<Rightarrow> Inl e
            | Inr r \<Rightarrow> Inr (r, n'))"
  using assms by (simp add: loop_body_def Let_def)

lemma py_range_tasks_2: "py_range 0 2 1 = [0, 1]"
  by (simp add: py_range_pos upt_conv_Cons)

lemma py_range_tasks_1: "py_range 0 1 1 = [0]"
  by (simp add: py_range_pos)

lemma py_range_sweep: "py_range 9 21 1 = [9, 10, 11, 12, 13, 14, 15, 16, 17, 18, 19, 20]"
  by (simp add: py_range_pos upt_conv_Cons)

lemma combinations_sum_registry:
  "combinations sum_registry =
     (''crc32'', 9) # List.product [''crc32''] [10, 11, 12, 13, 14, 15, 16, 17, 18, 19, 20, 0]
       @ List.product [''crc32z'', ''adler32''] [9, 10, 11, 12, 13, 14, 15, 16, 17, 18, 19, 20, 0]"
  by (simp add: combinations_def sum_registry_def checksums_def py_range_sweep)

section \<open>Runs of the serial strategy\<close>

lemma checksum_data_registered:
  assumes "lookup reg variant = Inr A"
  shows "\<exists>crc. \<forall>clk n. checksum_data reg clk n data bufsize variant =
           Inr ((crc, clk n, clk (n + 1) - clk n), n + 2)"
proof (cases "bufsize = 0")
  case True
  then show ?thesis using assms by (simp add: checksum_data_def Let_def)
next
  case False
  then obtain crc where "get_checksum reg bufsize data variant = Inr crc"
    using assms by (simp add: get_checksum_def range3_def Let_def)
  then show ?thesis using False by (simp add: checksum_data_def Let_def)
qed

lemma checksum_data_unregistered:
  assumes "map_of reg variant = None"
  shows "get_checksum reg bufsize data variant = Inl (KeyError variant)"
    and "checksum_data reg clk n data bufsize variant = Inl (KeyError variant)"
  using assms by (simp_all add: get_checksum_def checksum_data_def lookup_def Let_def)

lemma serial_pool_map_results:
  assumes "\<And>i n. f i n = Inr ((crc, clk n, clk (n + 1) - clk n), n + 2)"
  shows "serial_pool_map f iterable n =
           Inr (map (\<lambda>k. (crc, clk (n + 2 * k), clk (n + 2 * k + 1) - clk (n + 2 * k)))
                  [0..<length iterable],
                n + 2 * length iterable)"
proof (induction iterable arbitrary: n)
  case Nil
  show ?case by simp
next
  case (Cons i iterable)
  have hd: "f i n = Inr ((crc, clk n, clk (n + 1) - clk n), n + 2)"
    by (rule assms)
  have shift: "map (\<lambda>k. (crc, clk (n + 2 * k), clk (n + 2 * k + 1) - clk (n + 2 * k)))
                 [0..<Suc (length iterable)] =
               (crc, clk n, clk (n + 1) - clk n) #
               map (\<lambda>k. (crc, clk (n + 2 + 2 * k), clk (n + 2 + 2 * k + 1) - clk (n + 2 + 2 * k)))
                 [0..<length iterable]"
    by (simp add: upt_conv_Cons map_Suc_upt [symmetric] del: upt_Suc)
  show ?case
    using Cons.IH [of "n + 2"] hd shift by simp
qed

lemma loop_body_row:
  assumes "loop_body mp reg clk pool opts data size_mb (variant, bufsize_log2) n = Inr (r, n')"
  shows "row_variant r = variant \<and> row_bufsize r = bufsize_of bufsize_log2"
proof -
  from assms obtain res where
    "row_of_results variant (bufsize_of bufsize_log2) size_mb (clk n) res = Inr r"
    by (auto simp: loop_body_def Let_def split: sum.splits)
  then show ?thesis
    by (auto simp: row_of_results_def Let_def split: sum.splits if_splits list.splits)
qed

lemma for_loop_rows:
  assumes "\<And>c n r n'. body c n = Inr (r, n') \<Longrightarrow> key r = key' c"
  shows "map key (fst (for_loop body combos n)) =
           take (length (fst (for_loop body combos n))) (map key' combos)
       \<and> (snd (for_loop body combos n) = None \<longrightarrow>
            length (fst (for_loop body combos n)) = length combos)"
proof (induction combos arbitrary: n)
  case Nil
  show ?case by simp
next
  case (Cons c combos)
  show ?case
  proof (cases "body c n")
    case (Inl e)
    then show ?thesis by simp
  next
    case (Inr p)
    obtain r n' where p: "p = (r, n')" by (cases p)
    have "key r = key' c" using Inr p assms by blast
    then show ?thesis
      using Cons.IH [of n'] Inr p by (simp add: case_prod_beta)
  qed
qed

lemma for_loop_raised:
  assumes "snd (for_loop body combos n) = Some e"
  shows "\<exists>c\<in>set combos. \<exists>k. body c k = Inl e"
  using assms
proof (induction combos arbitrary: n)
  case Nil
  then show ?case by simp
next
  case (Cons c combos)
  show ?case
  proof (cases "body c n")
    case (Inl e')
    with Cons.prems have "e' = e" by simp
    with Inl show ?thesis by auto
  next
    case (Inr p)
    obtain r n' where p: "p = (r, n')" by (cases p)
    from Cons.prems Inr p have "snd (for_loop body combos n') = Some e"
      by (simp add: case_prod_beta)
    from Cons.IH [OF this] show ?thesis by auto
  qed
qed

lemma loop_body_serial:
  assumes "lookup reg variant = Inr A" "\<not> processes opts" "\<not> processes_copy opts"
  shows "\<exists>crc. loop_body mp reg clk Serial_pool opts data size_mb (variant, bufsize_log2) n =
     (case row_of_results variant (bufsize_of bufsize_log2) size_mb (clk n)
             (map (\<lambda>k. (crc, clk (n + 1 + 2 * k),
                          clk (n + 1 + 2 * k + 1) - clk (n + 1 + 2 * k)))
                [0..<nat (number_tasks opts)]) of
        Inl e \<Rightarrow> Inl e
      | Inr r \<Rightarrow> Inr (r, n + 1 + 2 * nat (number_tasks opts)))"
proof -
  let ?f = "get_checksum_function reg clk Serial_pool opts data (bufsize_of bufsize_log2) variant"
  from checksum_data_registered [OF assms(1), of data "bufsize_of bufsize_log2"]
  obtain crc where crc: "\<And>clk n. checksum_data reg clk n data (bufsize_of bufsize_log2) variant =
           Inr ((crc, clk n, clk (n + 1) - clk n), n + 2)"
    by blast
  have f: "?f i k = Inr ((crc, clk k, clk (k + 1) - clk k), k + 2)" for i k
    using assms(2,3) by (simp add: get_checksum_function_def crc)
  have "pool_map mp Serial_pool ?f (py_range 0 (number_tasks opts) 1) (n + 1) =
          Inr (map (\<lambda>k. (crc, clk (n + 1 + 2 * k),
                          clk (n + 1 + 2 * k + 1) - clk (n + 1 + 2 * k)))
                [0..<nat (number_tasks opts)], n + 1 + 2 * nat (number_tasks opts))"
    using serial_pool_map_results [of ?f crc clk "py_range 0 (number_tasks opts) 1" "n + 1", OF f]
    by (simp only: pool_map_def pool.case length_py_range_tasks)
  from loop_body_results [OF this] show ?thesis by blast
qed

lemma loop_body_serial_no_tasks:
  assumes "lookup reg variant = Inr A" "\<not> processes opts" "\<not> processes_copy opts"
    and "number_tasks opts \<le> 0"
  shows "loop_body mp reg clk Serial_pool opts data size_mb (variant, bufsize_log2) n =
           Inl IndexError"
proof -
  have "nat (number_tasks opts) = 0" using assms(4) by simp
  with loop_body_serial [OF assms(1-3), of mp clk data size_mb bufsize_log2 n]
  show ?thesis by (auto simp: row_of_results_empty)
qed

lemma loop_body_serial_raised:
  assumes "lookup reg variant = Inr A" "\<not> processes opts" "\<not> processes_copy opts"
    and "loop_body mp reg clk Serial_pool opts data size_mb (variant, bufsize_log2) n = Inl e"
  shows "e = IndexError \<or> e = ZeroDivisionError"
proof -
  from loop_body_serial [OF assms(1-3), of mp clk data size_mb bufsize_log2 n]
  obtain crc where body: "loop_body mp reg clk Serial_pool opts data size_mb (variant, bufsize_log2) n =
     (case row_of_results variant (bufsize_of bufsize_log2) size_mb (clk n)
             (map (\<lambda>k. (crc, clk (n + 1 + 2 * k),
                          clk (n + 1 + 2 * k + 1) - clk (n + 1 + 2 * k)))
                [0..<nat (number_tasks opts)]) of
        Inl e \<Rightarrow> Inl e
      | Inr r \<Rightarrow> Inr (r, n + 1 + 2 * nat (number_tasks opts)))"
    by blast
  define res where "res = map (\<lambda>k. (crc, clk (n + 1 + 2 * k),
                          clk (n + 1 + 2 * k + 1) - clk (n + 1 + 2 * k)))
                [0..<nat (number_tasks opts)]"
  have row: "row_of_results variant (bufsize_of bufsize_log2) size_mb (clk n) res = Inl e"
    using assms(4) body unfolding res_def [symmetric] by (simp split: sum.splits)
  have crcs: "\<forall>x\<in>set res. fst x = crc" by (auto simp: res_def)
  have eq: "\<forall>x\<in>set res. \<forall>y\<in>set res. fst x = fst y"
  proof (intro ballI)
    fix x y assume "x \<in> set res" "y \<in> set res"
    with crcs have "fst x = crc" "fst y = crc" by blast+
    then show "fst x = fst y" by (rule trans [OF _ sym])
  qed
  show ?thesis
  proof (cases "\<exists>r\<in>set res. snd (snd r) = 0")
    case True
    from row_of_results_zero_time [OF True, of variant "bufsize_of bufsize_log2" size_mb "clk n"] row
    show ?thesis by simp
  next
    case False
    then have nz: "\<forall>r\<in>set res. snd (snd r) \<noteq> 0" by blast
    show ?thesis
    proof (cases "res = []")
      case True
      with row show ?thesis by (simp add: row_of_results_empty)
    next
      case ne: False
      from row_of_results_row [OF nz eq ne, of variant "bufsize_of bufsize_log2" size_mb "clk n"] row
      show ?thesis by auto
    qed
  qed
qed

lemma loop_body_serial_row:
  assumes "lookup reg variant = Inr A" "\<not> processes opts" "\<not> processes_copy opts"
    and "1 \<le> number_tasks opts" and "\<And>k. clk (k + 1) \<noteq> clk k"
  shows "\<exists>r n'. loop_body mp reg clk Serial_pool opts data size_mb (variant, bufsize_log2) n =
           Inr (r, n')"
proof -
  from loop_body_serial [OF assms(1-3), of mp clk data size_mb bufsize_log2 n]
  obtain crc where body: "loop_body mp reg clk Serial_pool opts data size_mb (variant, bufsize_log2) n =
     (case row_of_results variant (bufsize_of bufsize_log2) size_mb (clk n)
             (map (\<lambda>k. (crc, clk (n + 1 + 2 * k),
                          clk (n + 1 + 2 * k + 1) - clk (n + 1 + 2 * k)))
                [0..<nat (number_tasks opts)]) of
        Inl e \<Rightarrow> Inl e
      | Inr r \<Rightarrow> Inr (r, n + 1 + 2 * nat (number_tasks opts)))"
    by blast
  define res where "res = map (\<lambda>k. (crc, clk (n + 1 + 2 * k),
                          clk (n + 1 + 2 * k + 1) - clk (n + 1 + 2 * k)))
                [0..<nat (number_tasks opts)]"
  have crcs: "\<forall>x\<in>set res. fst x = crc" by (auto simp: res_def)
  have eq: "\<forall>x\<in>set res. \<forall>y\<in>set res. fst x = fst y"
  proof (intro ballI)
    fix x y assume "x \<in> set res" "y \<in> set res"
    with crcs have "fst x = crc" "fst y = crc" by blast+
    then show "fst x = fst y" by (rule trans [OF _ sym])
  qed
  have nz: "\<forall>r\<in>set res. snd (snd r) \<noteq> 0"
    using assms(5) by (auto simp: res_def)
  have ne: "res \<noteq> []" using assms(4) by (simp add: res_def)
  from row_of_results_row [OF nz eq ne, of variant "bufsize_of bufsize_log2" size_mb "clk n"]
  obtain r where "row_of_results variant (bufsize_of bufsize_log2) size_mb (clk n) res = Inr r"
    by blast
  then show ?thesis
    using body unfolding res_def [symmetric] by simp
qed

lemma combinations_registered:
  assumes "(variant, bufsize_log2) \<in> set (combinations reg)"
  shows "\<exists>A. lookup reg variant = Inr A"
proof -
  from assms have "variant \<in> fst ` set reg"
    by (auto simp: combinations_def)
  then have "map_of reg variant \<noteq> None"
    by (simp add: map_of_eq_None_iff)
  then show ?thesis
    by (auto simp: lookup_def)
qed

lemma for_loop_complete:
  assumes "\<And>c n. c \<in> set combos \<Longrightarrow> \<exists>r n'. body c n = Inr (r, n')"
  shows "snd (for_loop body combos n) = None"
  using assms
proof (induction combos arbitrary: n)
  case Nil
  show ?case by simp
next
  case (Cons c combos)
  from Cons.prems [of c n] obtain r n' where "body c n = Inr (r, n')" by auto
  moreover have "snd (for_loop body combos n') = None"
    by (rule Cons.IH) (simp add: Cons.prems)
  ultimately show ?case by (simp add: case_prod_beta)
qed

lemma get_pool_serial:
  assumes "\<not> threads opts" "\<not> processes opts" "\<not> processes_copy opts"
  shows "get_pool opts data n = Inr (Serial_pool, data, n)"
  using assms by (simp add: get_pool_def)

lemma do_benchmarking_serial:
  assumes "\<not> threads opts" "\<not> processes opts" "\<not> processes_copy opts"
  shows "do_benchmarking mp reg clk opts data =
           for_loop (loop_body mp reg clk Serial_pool opts data (real (length data) / 1024 / 1024))
             (combinations reg) 0"
  by (simp add: do_benchmarking_def Let_def get_pool_serial [OF assms])

lemma serial_run_completes:
  assumes "\<not> threads opts" "\<not> processes opts" "\<not> processes_copy opts"
    and "1 \<le> number_tasks opts" and "\<And>k. clk (k + 1) \<noteq> clk k"
  shows "snd (do_benchmarking mp reg clk opts data) = None"
  unfolding do_benchmarking_serial [OF assms(1-3)]
proof (rule for_loop_complete)
  fix c :: "string \<times> int" and n
  assume c: "c \<in> set (combinations reg)"
  obtain variant bufsize_log2 where vl: "c = (variant, bufsize_log2)" by (cases c)
  from c vl combinations_registered obtain A where "lookup reg variant = Inr A" by blast
  from loop_body_serial_row [where clk = clk, OF this assms(2-5)]
  show "\<exists>r n'. loop_body mp reg clk Serial_pool opts data (real (length data) / 1024 / 1024) c n =
           Inr (r, n')"
    unfolding vl by blast
qed

lemma serial_run_raised:
  assumes "\<not> threads opts" "\<not> processes opts" "\<not> processes_copy opts"
    and "snd (do_benchmarking mp reg clk opts data) = Some e"
  shows "e = IndexError \<or> e = ZeroDivisionError"
proof -
  from for_loop_raised [OF assms(4) [unfolded do_benchmarking_serial [OF assms(1-3)]]]
  obtain c k where c: "c \<in> set (combinations reg)"
    and raised: "loop_body mp reg clk Serial_pool opts data (real (length data) / 1024 / 1024) c k = Inl e"
    by blast
  obtain variant bufsize_log2 where vl: "c = (variant, bufsize_log2)" by (cases c)
  from c vl combinations_registered obtain A where "lookup reg variant = Inr A" by blast
  from loop_body_serial_raised [OF this assms(2,3) raised [unfolded vl]]
  show ?thesis .
qed

lemma serial_run_no_tasks:
  assumes "\<not> threads opts" "\<not> processes opts" "\<not> processes_copy opts"
    and "number_tasks opts \<le> 0" and "reg \<noteq> []"
  shows "do_benchmarking mp reg clk opts data = ([], Some IndexError)"
proof -
  obtain variant info reg' where reg: "reg = (variant, info) # reg'"
    using assms(5) by (cases reg) auto
  have "py_range 9 21 1 = 9 # py_range 10 21 1"
    by (subst py_range.simps) simp
  then obtain rest where combos: "combinations reg = (variant, 9) # rest"
    by (simp add: combinations_def reg)
  have "lookup reg variant = Inr info"
    by (simp add: lookup_def reg)
  from loop_body_serial_no_tasks [OF this assms(2-4)]
  show ?thesis
    unfolding do_benchmarking_serial [OF assms(1-3)] combos by (rule for_loop_abort)
qed

lemma product_map_snd:
  "map (\<lambda>(v, l). (v, f l)) (List.product xs ys) = List.product xs (map f ys)"
  by (induction xs) simp_all

lemma combinations_sizes:
  "map (\<lambda>(variant, bufsize_log2). (variant, bufsize_of bufsize_log2)) (combinations reg) =
     List.product (map fst reg)
       [512, 1024, 2048, 4096, 8192, 16384, 32768, 65536, 131072, 262144, 524288, 1048576, 0]"
  unfolding combinations_def product_map_snd
  by (simp add: py_range_sweep bufsize_of_def)

section \<open>The start of a run\<close>

lemma row_of_results_division:
  assumes "res \<noteq> []"
    and "row_of_results variant bufsize size_mb t0 res = Inl ZeroDivisionError"
  shows "\<exists>r\<in>set res. snd (snd r) = 0"
proof (rule ccontr)
  assume "\<not> (\<exists>r\<in>set res. snd (snd r) = 0)"
  then have nz: "\<forall>r\<in>set res. snd (snd r) \<noteq> 0" by blast
  show False
  proof (cases "\<forall>x\<in>set res. \<forall>y\<in>set res. fst x = fst y")
    case True
    from row_of_results_row [OF nz True assms(1), of variant bufsize size_mb t0] assms(2)
    show False by auto
  next
    case False
    from row_of_results_different [OF nz False, of variant bufsize size_mb t0] assms(2)
    show False by simp
  qed
qed

lemma main_no_file:
  "file opts = None \<Longrightarrow>
   main mp reg clk fs opts =
     do_benchmarking mp reg clk opts (replicate (nat (1024 * 1024 * megabytes opts)) 0x20)"
  by (simp add: main_def)

lemma mean_and_stddev_empty: "mean_and_stddev [] = Inl ZeroDivisionError"
  by (simp add: mean_and_stddev_def)

section \<open>The tasks of every pool\<close>









section \<open>The claims\<close>

text \<open>
  \<^bold>\<open>C1\<close>. For a registered algorithm whose update is associative across chunk
  boundaries, and a chunk size \<open>C > 0\<close>, \<open>checksum_data\<close> returns for every buffer the
  checksum that it returns for the chunk size 0 (the whole buffer at once), whatever
  the clock shows: the value \<open>final(method(D, init()))\<close>.
\<close>

theorem chunking_preserves_checksum:
  assumes "lookup reg variant = Inr A" and "chunk_associative A" and "0 < C"
  shows "checksum_of (checksum_data reg clk n D C variant) =
           checksum_of (checksum_data reg clk' n' D 0 variant)
       \<and> checksum_of (checksum_data reg clk' n' D 0 variant) =
           Inr (final A (method A D (init A ())))"
  using assms by (simp add: checksum_of_chunked checksum_of_whole get_checksum_whole)


theorem chunking_preserves_checksum_witness:
  "lookup sum_registry ''adler32'' =
     Inr \<lparr>name = ''zlib's adler32 implementation'', init = (\<lambda>_. 0),
          method = sum_bytes, final = (\<lambda>x. x AND 0xffffffff)\<rparr>
   \<and> chunk_associative \<lparr>name = ''zlib's adler32 implementation'', init = (\<lambda>_. 0),
          method = sum_bytes, final = (\<lambda>x. x AND 0xffffffff)\<rparr>
   \<and> (0::int) < 2
   \<and> checksum_of (checksum_data sum_registry tick_clock 0 [1, 2, 3, 4, 5] 2 ''adler32'') =
       checksum_of (checksum_data sum_registry still_clock 7 [1, 2, 3, 4, 5] 0 ''adler32'')
   \<and> checksum_of (checksum_data sum_registry still_clock 7 [1, 2, 3, 4, 5] 0 ''adler32'') =
       Inr 15"
  using chunking_preserves_checksum [OF lookup_sum_registry sum_bytes_chunk_associative,
      of 2 tick_clock 0 "[1, 2, 3, 4, 5]" still_clock 7]
  by (simp add: lookup_sum_registry sum_bytes_chunk_associative sum_bytes_def)

text \<open>
  \<^bold>\<open>C5\<close>. For a chunk size \<open>C > 0\<close> the blocks of a buffer \<open>D\<close> are
  \<open>\<lceil>len(D) / C\<rceil>\<close> slices; block \<open>i\<close> is the \<open>C\<close> bytes of \<open>D\<close> from position \<open>i * C\<close> on
  (fewer where \<open>D\<close> ends), so the blocks are contiguous, do not overlap and ascend; every
  block but the last has exactly \<open>C\<close> bytes, and none is empty or longer; their
  concatenation is \<open>D\<close>. \<open>get_checksum\<close> threads the state from \<open>init()\<close> through one
  update per block, in this order, and applies \<open>final\<close> once.
\<close>

theorem chunker_partitions_buffer:
  assumes "0 < C"
  shows "\<exists>blocks. chunker D C = Inr blocks
           \<and> concat blocks = D
           \<and> length blocks = (length D + nat C - 1) div nat C
           \<and> (\<forall>i < length blocks. blocks ! i = take (nat C) (drop (i * nat C) D))
           \<and> (\<forall>i. Suc i < length blocks \<longrightarrow> length (blocks ! i) = nat C)
           \<and> (\<forall>i < length blocks. 0 < length (blocks ! i) \<and> length (blocks ! i) \<le> nat C)
           \<and> (\<forall>A. lookup reg variant = Inr A \<longrightarrow>
                  get_checksum reg C D variant =
                    Inr (final A (foldl (\<lambda>crc block. method A block crc) (init A ()) blocks)))"
proof -
  define c where "c = nat C"
  define blocks where "blocks = map (\<lambda>k. take c (drop (k * c) D)) [0..<(length D + c - 1) div c]"
  have c: "0 < c" using assms by (simp add: c_def)
  have 1: "chunker D C = Inr blocks"
    unfolding blocks_def c_def by (rule chunker_blocks [OF assms])
  have 2: "concat blocks = D"
    unfolding blocks_def by (rule concat_blocks [OF c])
  have 3: "length blocks = (length D + c - 1) div c"
    by (simp add: blocks_def)
  have 4: "blocks ! i = take c (drop (i * c) D)" if "i < length blocks" for i
    using that by (simp add: blocks_def)
  have 5: "length (blocks ! i) = c" if "Suc i < length blocks" for i
  proof -
    from that have "i < length blocks" by simp
    then show ?thesis using block_full [OF c, of i D] that 3 by (simp only: 4)
  qed
  have 6: "0 < length (blocks ! i) \<and> length (blocks ! i) \<le> c" if "i < length blocks" for i
    using block_nonempty [OF c, of i D] that 3 by (simp only: 4) simp
  have 7: "get_checksum reg C D variant =
             Inr (final A (foldl (\<lambda>crc block. method A block crc) (init A ()) blocks))"
    if "lookup reg variant = Inr A" for A
    unfolding blocks_def c_def by (rule get_checksum_blocks [OF assms that])
  show ?thesis
    using 1 2 3 4 5 6 7 unfolding c_def [symmetric] by blast
qed

theorem chunker_partitions_buffer_witness:
  "(0::int) < 2
   \<and> chunker [1, 2, 3, 4, 5 :: byte] 2 = Inr [[1, 2], [3, 4], [5]]
   \<and> get_checksum sum_registry 2 [1, 2, 3, 4, 5] ''adler32'' = Inr 15"
proof -
  let ?D = "[1, 2, 3, 4, 5 :: byte]"
  have pos: "(0::int) < 2" by simp
  from chunker_partitions_buffer [OF pos, of ?D sum_registry "''adler32''"]
  obtain blocks where b: "chunker ?D 2 = Inr blocks"
    and len: "length blocks = 3"
    and nth: "\<forall>i<length blocks. blocks ! i = take 2 (drop (i * 2) ?D)"
    and gc: "\<forall>A. lookup sum_registry ''adler32'' = Inr A \<longrightarrow>
               get_checksum sum_registry 2 ?D ''adler32'' =
                 Inr (final A (foldl (\<lambda>crc block. method A block crc) (init A ()) blocks))"
    by auto
  from len obtain x y z where xyz: "blocks = [x, y, z]"
    by (auto simp: eval_nat_numeral length_Suc_conv)
  from nth have "blocks ! 0 = [1, 2]" "blocks ! 1 = [3, 4]" "blocks ! 2 = [5]"
    by (simp_all add: len)
  then have blocks: "blocks = [[1, 2], [3, 4], [5]]"
    by (simp add: xyz)
  from gc have "get_checksum sum_registry 2 ?D ''adler32'' = Inr 15"
    by (simp add: lookup_sum_registry blocks sum_bytes_def)
  with b blocks show ?thesis by simp
qed

text \<open>
  \<^bold>\<open>C3\<close>. Let \<open>res\<close> be the results that the pool's \<open>map\<close> returned for one
  combination. If their checksums are not all equal, the loop ends there with an
  exception: no row is printed for this combination nor for any later one, whatever
  combinations remain; where no task measured an elapsed time of 0 the exception is the
  one of the consistency check, carrying the name of the algorithm and the checksums.
  If the checksums are all equal, the loop body does not raise that exception, and
  where there is at least one result and no elapsed time is 0 it produces the row and
  the loop goes on with the remaining combinations.
\<close>

theorem checksum_mismatch_is_fatal:
  assumes "pool_map mp pool
             (get_checksum_function reg clk pool opts data (bufsize_of bufsize_log2) variant)
             (py_range 0 (number_tasks opts) 1) (n + 1) = Inr (res, n')"
  shows "(\<not> (\<forall>x\<in>set res. \<forall>y\<in>set res. fst x = fst y) \<longrightarrow>
            (\<exists>e. for_loop (loop_body mp reg clk pool opts data size_mb)
                    ((variant, bufsize_log2) # rest) n = ([], Some e))
          \<and> ((\<forall>r\<in>set res. snd (snd r) \<noteq> 0) \<longrightarrow>
                for_loop (loop_body mp reg clk pool opts data size_mb)
                  ((variant, bufsize_log2) # rest) n =
                  ([], Some (DifferentChecksums variant (map fst res)))))
       \<and> ((\<forall>x\<in>set res. \<forall>y\<in>set res. fst x = fst y) \<longrightarrow>
            loop_body mp reg clk pool opts data size_mb (variant, bufsize_log2) n \<noteq>
              Inl (DifferentChecksums v crcs)
          \<and> (res \<noteq> [] \<and> (\<forall>r\<in>set res. snd (snd r) \<noteq> 0) \<longrightarrow>
                (\<exists>r. loop_body mp reg clk pool opts data size_mb (variant, bufsize_log2) n =
                       Inr (r, n')
                   \<and> for_loop (loop_body mp reg clk pool opts data size_mb)
                       ((variant, bufsize_log2) # rest) n =
                       (r # fst (for_loop (loop_body mp reg clk pool opts data size_mb) rest n'),
                        snd (for_loop (loop_body mp reg clk pool opts data size_mb) rest n')))))"
proof -
  let ?body = "loop_body mp reg clk pool opts data size_mb"
  let ?row = "row_of_results variant (bufsize_of bufsize_log2) size_mb (clk n) res"
  note body = loop_body_results [OF assms, of size_mb]
  have differ_zero: "for_loop ?body ((variant, bufsize_log2) # rest) n = ([], Some ZeroDivisionError)"
    if "\<exists>r\<in>set res. snd (snd r) = 0"
  proof -
    have "?body (variant, bufsize_log2) n = Inl ZeroDivisionError"
      by (simp only: body row_of_results_zero_time [OF that] sum.case)
    then show ?thesis by (rule for_loop_abort)
  qed
  have differ: "for_loop ?body ((variant, bufsize_log2) # rest) n =
                  ([], Some (DifferentChecksums variant (map fst res)))"
    if "\<not> (\<forall>x\<in>set res. \<forall>y\<in>set res. fst x = fst y)" "\<forall>r\<in>set res. snd (snd r) \<noteq> 0"
  proof -
    have "?body (variant, bufsize_log2) n = Inl (DifferentChecksums variant (map fst res))"
      by (simp only: body row_of_results_different [OF that(2,1)] sum.case)
    then show ?thesis by (rule for_loop_abort)
  qed
  have fatal: "\<exists>e. for_loop ?body ((variant, bufsize_log2) # rest) n = ([], Some e)"
    if "\<not> (\<forall>x\<in>set res. \<forall>y\<in>set res. fst x = fst y)"
  proof (cases "\<exists>r\<in>set res. snd (snd r) = 0")
    case True
    then show ?thesis using differ_zero by blast
  next
    case False
    then have "\<forall>r\<in>set res. snd (snd r) \<noteq> 0" by blast
    then show ?thesis using differ [OF that] by blast
  qed
  have same: "?body (variant, bufsize_log2) n \<noteq> Inl (DifferentChecksums v crcs)"
    if "\<forall>x\<in>set res. \<forall>y\<in>set res. fst x = fst y"
  proof -
    have "?row \<noteq> Inl (DifferentChecksums v crcs)"
      using that by (rule row_of_results_not_different)
    then show ?thesis
      by (cases ?row) (simp_all only: body sum.case sum.inject sum.distinct not_False_eq_True)
  qed
  have continue: "\<exists>r. ?body (variant, bufsize_log2) n = Inr (r, n')
                   \<and> for_loop ?body ((variant, bufsize_log2) # rest) n =
                       (r # fst (for_loop ?body rest n'), snd (for_loop ?body rest n'))"
    if "\<forall>x\<in>set res. \<forall>y\<in>set res. fst x = fst y" "res \<noteq> []" "\<forall>r\<in>set res. snd (snd r) \<noteq> 0"
  proof -
    from row_of_results_row [OF that(3,1,2), of variant "bufsize_of bufsize_log2" size_mb "clk n"]
    obtain r where "?row = Inr r" by blast
    then have "?body (variant, bufsize_log2) n = Inr (r, n')"
      by (simp only: body sum.case)
    then show ?thesis using for_loop_continue by blast
  qed
  show ?thesis
    using fatal differ same continue by blast
qed

theorem checksum_mismatch_is_fatal_witness:
  "pool_map (racy_mp 1) (ThreadPool 2)
     (get_checksum_function sum_registry tick_clock (ThreadPool 2) (thread_opts 2) []
        (bufsize_of 9) ''crc32'')
     (py_range 0 (number_tasks (thread_opts 2)) 1) (0 + 1) = Inr ([(1, 0, 1), (2, 0, 1)], 1)
   \<and> for_loop (loop_body (racy_mp 1) sum_registry tick_clock (ThreadPool 2) (thread_opts 2) [] 0)
       [(''crc32'', 9), (''crc32'', 10)] 0 = ([], Some (DifferentChecksums ''crc32'' [1, 2]))
   \<and> pool_map no_mp Serial_pool
       (get_checksum_function sum_registry tick_clock Serial_pool (serial_opts 2) [1, 2, 3]
          (bufsize_of 0) ''adler32'')
       (py_range 0 (number_tasks (serial_opts 2)) 1) (0 + 1) = Inr ([(6, 1, 1), (6, 3, 1)], 5)
   \<and> (\<exists>r. for_loop (loop_body no_mp sum_registry tick_clock Serial_pool (serial_opts 2) [1, 2, 3] 0)
            [(''adler32'', 0)] 0 = ([r], None))"
proof -
  have racy: "pool_map (racy_mp 1) (ThreadPool 2)
     (get_checksum_function sum_registry tick_clock (ThreadPool 2) (thread_opts 2) []
        (bufsize_of 9) ''crc32'')
     (py_range 0 (number_tasks (thread_opts 2)) 1) (0 + 1) = Inr ([(1, 0, 1), (2, 0, 1)], 1)"
    by (simp add: pool_map_def racy_mp_def)
  have aborted: "for_loop (loop_body (racy_mp 1) sum_registry tick_clock (ThreadPool 2) (thread_opts 2) [] 0)
       [(''crc32'', 9), (''crc32'', 10)] 0 = ([], Some (DifferentChecksums ''crc32'' [1, 2]))"
    using checksum_mismatch_is_fatal [OF racy, of 0 "[(''crc32'', 10)]"] by simp
  have f: "get_checksum_function sum_registry tick_clock Serial_pool (serial_opts 2) [1, 2, 3]
          (bufsize_of 0) ''adler32'' i k = Inr ((6, real k, 1), k + 2)" for i k
    by (simp add: get_checksum_function_def serial_opts_def bufsize_of_def checksum_data_def
        lookup_sum_registry sum_bytes_def tick_clock_def)
  have nt: "number_tasks (serial_opts 2) = 2" by (simp add: serial_opts_def)
  have serial: "pool_map no_mp Serial_pool
       (get_checksum_function sum_registry tick_clock Serial_pool (serial_opts 2) [1, 2, 3]
          (bufsize_of 0) ''adler32'')
       (py_range 0 (number_tasks (serial_opts 2)) 1) (0 + 1) = Inr ([(6, 1, 1), (6, 3, 1)], 5)"
    by (simp add: pool_map_def nt py_range_tasks_2 f)
  have continued: "\<exists>r. for_loop (loop_body no_mp sum_registry tick_clock Serial_pool (serial_opts 2) [1, 2, 3] 0)
            [(''adler32'', 0)] 0 = ([r], None)"
  proof -
    from checksum_mismatch_is_fatal [OF serial, where size_mb = 0 and rest = "[]"]
    obtain r where "loop_body no_mp sum_registry tick_clock Serial_pool (serial_opts 2) [1, 2, 3] 0
        (''adler32'', 0) 0 = Inr (r, 5)"
      by auto
    then have "for_loop (loop_body no_mp sum_registry tick_clock Serial_pool (serial_opts 2) [1, 2, 3] 0)
            [(''adler32'', 0)] 0 = ([r], None)"
      by simp
    then show ?thesis by blast
  qed
  show ?thesis
    using racy aborted serial continued by blast
qed

text \<open>
  \<^bold>\<open>C10\<close>. If one of the results that the pool's \<open>map\<close> returned for a combination
  has an elapsed time of exactly 0, the division \<open>size_mb / t\<close> raises
  \<open>ZeroDivisionError\<close>: the loop body fails with it, whether or not the checksums agree
  (the consistency check and the statistics come later and are not reached), and the
  loop ends with no row for this or any later combination. Such a run exists: the serial
  strategy on a clock that stands still.
\<close>

theorem zero_elapsed_time_raises_division_error:
  assumes "pool_map mp pool
             (get_checksum_function reg clk pool opts data (bufsize_of bufsize_log2) variant)
             (py_range 0 (number_tasks opts) 1) (n + 1) = Inr (res, n')"
    and "\<exists>r\<in>set res. snd (snd r) = 0"
  shows "row_of_results variant (bufsize_of bufsize_log2) size_mb (clk n) res =
           Inl ZeroDivisionError
       \<and> loop_body mp reg clk pool opts data size_mb (variant, bufsize_log2) n =
           Inl ZeroDivisionError
       \<and> for_loop (loop_body mp reg clk pool opts data size_mb)
           ((variant, bufsize_log2) # rest) n = ([], Some ZeroDivisionError)"
proof -
  have row: "row_of_results variant (bufsize_of bufsize_log2) size_mb (clk n) res =
           Inl ZeroDivisionError"
    using assms(2) by (rule row_of_results_zero_time)
  have body: "loop_body mp reg clk pool opts data size_mb (variant, bufsize_log2) n =
           Inl ZeroDivisionError"
    by (simp only: loop_body_results [OF assms(1)] row sum.case)
  from body have "for_loop (loop_body mp reg clk pool opts data size_mb)
           ((variant, bufsize_log2) # rest) n = ([], Some ZeroDivisionError)"
    by (rule for_loop_abort)
  with row body show ?thesis by blast
qed

theorem zero_elapsed_time_raises_division_error_witness:
  "pool_map no_mp Serial_pool
     (get_checksum_function sum_registry still_clock Serial_pool (serial_opts 1) []
        (bufsize_of 9) ''crc32'')
     (py_range 0 (number_tasks (serial_opts 1)) 1) (0 + 1) = Inr ([(0, 0, 0)], 3)
   \<and> (\<exists>r\<in>set [(0, 0, 0 :: real) :: task_result]. snd (snd r) = 0)
   \<and> do_benchmarking no_mp sum_registry still_clock (serial_opts 1) [] =
       ([], Some ZeroDivisionError)
   \<and> for_loop (loop_body (racy_mp 0) sum_registry tick_clock (ThreadPool 2) (thread_opts 2) [] 0)
       [(''crc32'', 9), (''crc32'', 10)] 0 = ([], Some ZeroDivisionError)"
proof -
  have f: "get_checksum_function sum_registry still_clock Serial_pool (serial_opts 1) []
        (bufsize_of 9) ''crc32'' i k = Inr ((0, 0, 0), k + 2)" for i k
    by (simp add: get_checksum_function_def serial_opts_def bufsize_of_def checksum_data_def
        get_checksum_empty lookup_def sum_registry_def checksums_def still_clock_def)
  have nt: "number_tasks (serial_opts 1) = 1" by (simp add: serial_opts_def)
  have serial: "pool_map no_mp Serial_pool
     (get_checksum_function sum_registry still_clock Serial_pool (serial_opts 1) []
        (bufsize_of 9) ''crc32'')
     (py_range 0 (number_tasks (serial_opts 1)) 1) (0 + 1) = Inr ([(0, 0, 0)], 3)"
    by (simp add: pool_map_def nt py_range_tasks_1 f)
  have zero: "\<exists>r\<in>set [(0, 0, 0 :: real) :: task_result]. snd (snd r) = 0"
    by simp
  have pool: "get_pool (serial_opts 1) [] 0 = Inr (Serial_pool, [], 0)"
    by (simp add: get_pool_def serial_opts_def)
  have run: "do_benchmarking no_mp sum_registry still_clock (serial_opts 1) [] =
       ([], Some ZeroDivisionError)"
  proof -
    note z = zero_elapsed_time_raises_division_error [OF serial zero,
        where size_mb = "real (length ([] :: bytes)) / 1024 / 1024", THEN conjunct2, THEN conjunct2]
    show ?thesis
      by (simp only: do_benchmarking_def Let_def pool sum.case prod.case
          combinations_sum_registry z)
  qed
  have racy: "pool_map (racy_mp 0) (ThreadPool 2)
     (get_checksum_function sum_registry tick_clock (ThreadPool 2) (thread_opts 2) []
        (bufsize_of 9) ''crc32'')
     (py_range 0 (number_tasks (thread_opts 2)) 1) (0 + 1) = Inr ([(1, 0, 0), (2, 0, 0)], 1)"
    by (simp add: pool_map_def racy_mp_def)
  have racy_zero: "\<exists>r\<in>set [(1, 0, 0 :: real), (2, 0, 0) :: task_result]. snd (snd r) = 0"
    by simp
  have racy_run: "for_loop (loop_body (racy_mp 0) sum_registry tick_clock (ThreadPool 2) (thread_opts 2) [] 0)
       [(''crc32'', 9), (''crc32'', 10)] 0 = ([], Some ZeroDivisionError)"
    using zero_elapsed_time_raises_division_error [OF racy racy_zero, of 0 "[(''crc32'', 10)]"]
    by simp
  show ?thesis
    using serial zero run racy_run by blast
qed

text \<open>
  \<^bold>\<open>C7\<close>. The loop runs over the algorithms in the order of the registry and, for
  each of them, over the chunk sizes 512, 1024, \<dots>, 1048576 (the powers of two from
  \<open>2\<^sup>9\<close> to \<open>2\<^sup>2\<^sup>0\<close>, ascending) and then 0, the whole buffer. The rows printed are, in
  this order, those of the first combinations; a run that raises nothing prints them
  all.
\<close>

theorem sweep_order:
  "map (\<lambda>(variant, bufsize_log2). (variant, bufsize_of bufsize_log2)) (combinations reg) =
     List.product (map fst reg)
       [512, 1024, 2048, 4096, 8192, 16384, 32768, 65536, 131072, 262144, 524288, 1048576, 0]
   \<and> map (\<lambda>r. (row_variant r, row_bufsize r)) (fst (do_benchmarking mp reg clk opts data)) =
       take (length (fst (do_benchmarking mp reg clk opts data)))
         (List.product (map fst reg)
            [512, 1024, 2048, 4096, 8192, 16384, 32768, 65536, 131072, 262144, 524288,
             1048576, 0])
   \<and> (snd (do_benchmarking mp reg clk opts data) = None \<longrightarrow>
        map (\<lambda>r. (row_variant r, row_bufsize r)) (fst (do_benchmarking mp reg clk opts data)) =
          List.product (map fst reg)
            [512, 1024, 2048, 4096, 8192, 16384, 32768, 65536, 131072, 262144, 524288,
             1048576, 0])"
proof -
  let ?sizes = "[512, 1024, 2048, 4096, 8192, 16384, 32768, 65536, 131072, 262144, 524288,
                 1048576, 0 :: int]"
  let ?key = "\<lambda>r. (row_variant r, row_bufsize r)"
  let ?key' = "\<lambda>(variant, bufsize_log2). (variant, bufsize_of bufsize_log2)"
  let ?run = "do_benchmarking mp reg clk opts data"
  have order: "map ?key' (combinations reg) = List.product (map fst reg) ?sizes"
    by (rule combinations_sizes)
  have len: "length (combinations reg) = length (List.product (map fst reg) ?sizes)"
    using arg_cong [OF order, of length] by simp
  have rows: "map ?key (fst ?run) = take (length (fst ?run)) (map ?key' (combinations reg))
       \<and> (snd ?run = None \<longrightarrow> length (fst ?run) = length (combinations reg))"
  proof (cases "get_pool opts data 0")
    case (Inl e)
    then have "?run = ([], Some e)"
      by (simp add: do_benchmarking_def Let_def)
    then show ?thesis by simp
  next
    case (Inr p)
    obtain pool data' n0 where p: "p = (pool, data', n0)" by (cases p)
    define body where
      "body = loop_body mp reg clk pool opts data' (real (length data) / 1024 / 1024)"
    have run: "?run = for_loop body (combinations reg) n0"
      by (simp add: do_benchmarking_def Let_def Inr p body_def)
    have keyed: "?key r = ?key' c" if "body c n = Inr (r, n')" for c n r n'
    proof -
      obtain variant bufsize_log2 where c: "c = (variant, bufsize_log2)" by (cases c)
      from that have "loop_body mp reg clk pool opts data' (real (length data) / 1024 / 1024)
          (variant, bufsize_log2) n = Inr (r, n')"
        by (simp only: body_def c)
      from loop_body_row [OF this] show ?thesis by (simp add: c)
    qed
    have "map ?key (fst (for_loop body (combinations reg) n0)) =
             take (length (fst (for_loop body (combinations reg) n0)))
               (map ?key' (combinations reg))
         \<and> (snd (for_loop body (combinations reg) n0) = None \<longrightarrow>
              length (fst (for_loop body (combinations reg) n0)) = length (combinations reg))"
      by (rule for_loop_rows) (rule keyed)
    then show ?thesis unfolding run .
  qed
  have prefix: "map ?key (fst ?run) = take (length (fst ?run)) (List.product (map fst reg) ?sizes)"
    using rows unfolding order by blast
  have whole: "map ?key (fst ?run) = List.product (map fst reg) ?sizes" if "snd ?run = None"
  proof -
    from that rows have "length (fst ?run) = length (List.product (map fst reg) ?sizes)"
      unfolding len [symmetric] by blast
    with prefix show ?thesis by simp
  qed
  show ?thesis
    using order prefix whole by blast
qed

theorem sweep_order_witness:
  "snd (do_benchmarking no_mp sum_registry tick_clock (serial_opts 1) [1, 2, 3]) = None
   \<and> map (\<lambda>r. (row_variant r, row_bufsize r))
       (fst (do_benchmarking no_mp sum_registry tick_clock (serial_opts 1) [1, 2, 3])) =
     List.product [''crc32'', ''crc32z'', ''adler32'']
       [512, 1024, 2048, 4096, 8192, 16384, 32768, 65536, 131072, 262144, 524288, 1048576, 0]"
proof -
  have finished: "snd (do_benchmarking no_mp sum_registry tick_clock (serial_opts 1) [1, 2, 3]) = None"
    by (rule serial_run_completes) (simp_all add: serial_opts_def tick_clock_def)
  have keys: "map fst sum_registry = [''crc32'', ''crc32z'', ''adler32'']"
    by (simp add: sum_registry_def checksums_def)
  from sweep_order [of sum_registry no_mp tick_clock "serial_opts 1" "[1, 2, 3]"] finished
  show ?thesis
    unfolding keys by blast
qed

text \<open>
  \<^bold>\<open>C8\<close>, as the code has it. No option of \<open>main\<close> names an algorithm and nothing
  validates names when the program starts. A name that is not in the registry, given to
  \<open>get_checksum\<close> or \<open>checksum_data\<close>, raises \<open>KeyError\<close> at the lookup, before any update.
  The loop of \<open>do_benchmarking\<close> takes its names from the registry, so each of them is
  registered, and under the serial strategy the run never ends with a \<open>KeyError\<close>.
\<close>

theorem unregistered_name_raises_key_error:
  "(map_of reg variant = None \<longrightarrow>
      get_checksum reg bufsize data variant = Inl (KeyError variant)
    \<and> checksum_data reg clk n data bufsize variant = Inl (KeyError variant))
   \<and> (\<forall>c\<in>set (combinations reg). \<exists>A. lookup reg (fst c) = Inr A)
   \<and> (\<not> threads opts \<and> \<not> processes opts \<and> \<not> processes_copy opts \<longrightarrow>
        snd (do_benchmarking mp reg clk opts data) \<noteq> Some (KeyError k))"
proof -
  have registered: "\<exists>A. lookup reg (fst c) = Inr A" if "c \<in> set (combinations reg)" for c
    using that combinations_registered [of "fst c" "snd c" reg] by simp
  have serial: "snd (do_benchmarking mp reg clk opts data) \<noteq> Some (KeyError k)"
    if "\<not> threads opts" "\<not> processes opts" "\<not> processes_copy opts"
  proof
    assume "snd (do_benchmarking mp reg clk opts data) = Some (KeyError k)"
    from serial_run_raised [OF that this] show False by simp
  qed
  show ?thesis
    using checksum_data_unregistered registered serial by blast
qed

theorem unregistered_name_raises_key_error_witness:
  "map_of sum_registry ''md5'' = None
   \<and> get_checksum sum_registry 512 [1, 2, 3] ''md5'' = Inl (KeyError ''md5'')
   \<and> checksum_data sum_registry tick_clock 0 [1, 2, 3] 512 ''md5'' = Inl (KeyError ''md5'')
   \<and> \<not> threads (serial_opts 1) \<and> \<not> processes (serial_opts 1)
   \<and> \<not> processes_copy (serial_opts 1)
   \<and> snd (do_benchmarking no_mp sum_registry tick_clock (serial_opts 1) [1, 2, 3]) \<noteq>
       Some (KeyError ''md5'')"
proof -
  have none: "map_of sum_registry ''md5'' = None"
    by (simp add: sum_registry_def checksums_def)
  have opts: "\<not> threads (serial_opts 1)" "\<not> processes (serial_opts 1)"
    "\<not> processes_copy (serial_opts 1)"
    by (simp_all add: serial_opts_def)
  from unregistered_name_raises_key_error
    [of sum_registry "''md5''" 512 "[1, 2, 3]" tick_clock 0 "serial_opts 1" no_mp "''md5''"]
    none opts
  show ?thesis by blast
qed

text \<open>The claim as the specification states it fails: a request for an algorithm that
  is not registered is not rejected as a configuration error at the start; it reaches
  the registry lookup inside the timed computation, for a chunk size other than 0 and
  for 0 alike, and surfaces there as a \<open>KeyError\<close>.\<close>

theorem unregistered_name_counterexample:
  "checksum_data sum_registry tick_clock 0 [1, 2, 3] 512 ''md5'' = Inl (KeyError ''md5'')
   \<and> checksum_data sum_registry tick_clock 0 [1, 2, 3] 0 ''md5'' = Inl (KeyError ''md5'')
   \<and> get_checksum sum_registry 512 [1, 2, 3] ''md5'' = Inl (KeyError ''md5'')"
proof -
  have "map_of sum_registry ''md5'' = None"
    by (simp add: sum_registry_def checksums_def)
  then show ?thesis
    by (simp add: checksum_data_unregistered)
qed

text \<open>
  \<^bold>\<open>C9\<close>, as the code has it. \<open>main\<close> accepts any integer as the number of tasks.
  With a number of tasks of 0 or less, the serial strategy and a registry that is not
  empty, the run ends in the first combination with the \<open>IndexError\<close> of \<open>crcs[0]\<close>, and
  no row: the loop body raises it on an empty list of results before it computes any
  statistics. \<open>mean_and_stddev\<close> raises \<open>ZeroDivisionError\<close> on an empty sequence and
  returns on every other one; on a list of results that is not empty the loop body
  raises \<open>ZeroDivisionError\<close> only for an elapsed time of 0.
\<close>

theorem task_count_not_enforced:
  "(number_tasks opts \<le> 0 \<and> \<not> threads opts \<and> \<not> processes opts \<and> \<not> processes_copy opts
      \<and> file opts = None \<and> reg \<noteq> [] \<longrightarrow>
        main mp reg clk fs opts = ([], Some IndexError))
   \<and> (number_tasks opts \<le> 0 \<and> \<not> threads opts \<and> \<not> processes opts \<and> \<not> processes_copy opts
      \<and> reg \<noteq> [] \<longrightarrow>
        do_benchmarking mp reg clk opts data = ([], Some IndexError))
   \<and> row_of_results variant bufsize size_mb t0 [] = Inl IndexError
   \<and> mean_and_stddev [] = Inl ZeroDivisionError
   \<and> (x \<noteq> [] \<longrightarrow> (\<exists>mean stddev. mean_and_stddev x = Inr (mean, stddev)))
   \<and> (res \<noteq> [] \<and> row_of_results variant bufsize size_mb t0 res = Inl ZeroDivisionError \<longrightarrow>
        (\<exists>r\<in>set res. snd (snd r) = 0))"
proof -
  have run: "do_benchmarking mp reg clk opts data = ([], Some IndexError)"
    if "number_tasks opts \<le> 0" "\<not> threads opts" "\<not> processes opts" "\<not> processes_copy opts"
      "reg \<noteq> []" for data
    using that by (intro serial_run_no_tasks)
  have start: "main mp reg clk fs opts = ([], Some IndexError)"
    if "number_tasks opts \<le> 0" "\<not> threads opts" "\<not> processes opts" "\<not> processes_copy opts"
      "file opts = None" "reg \<noteq> []"
  proof -
    have "main mp reg clk fs opts =
            do_benchmarking mp reg clk opts (replicate (nat (1024 * 1024 * megabytes opts)) 0x20)"
      using that(5) by (rule main_no_file)
    also have "\<dots> = ([], Some IndexError)"
      using that(1-4,6) by (rule run)
    finally show ?thesis .
  qed
  show ?thesis
    using start run row_of_results_empty mean_and_stddev_empty mean_and_stddev_nonempty
      row_of_results_division
    by blast
qed

theorem task_count_not_enforced_witness:
  "number_tasks (serial_opts (- 3)) \<le> 0
   \<and> \<not> threads (serial_opts (- 3)) \<and> \<not> processes (serial_opts (- 3))
   \<and> \<not> processes_copy (serial_opts (- 3)) \<and> file (serial_opts (- 3)) = None
   \<and> sum_registry \<noteq> []
   \<and> main no_mp sum_registry tick_clock no_files (serial_opts (- 3)) = ([], Some IndexError)
   \<and> do_benchmarking no_mp sum_registry tick_clock (serial_opts (- 3)) [1, 2, 3] =
       ([], Some IndexError)
   \<and> [1, 3] \<noteq> ([] :: real list)
   \<and> (\<exists>mean stddev. mean_and_stddev [1, 3] = Inr (mean, stddev))"
proof -
  have opts: "number_tasks (serial_opts (- 3)) \<le> 0" "\<not> threads (serial_opts (- 3))"
    "\<not> processes (serial_opts (- 3))" "\<not> processes_copy (serial_opts (- 3))"
    "file (serial_opts (- 3)) = None"
    by (simp_all add: serial_opts_def)
  have reg: "sum_registry \<noteq> []"
    by (simp add: sum_registry_def checksums_def)
  have ne: "[1, 3] \<noteq> ([] :: real list)" by simp
  from task_count_not_enforced
    [of "serial_opts (- 3)" sum_registry no_mp tick_clock no_files "[1, 2, 3]"
        "''crc32''" 0 0 0 "[1, 3]" "[]"]
    opts reg ne
  show ?thesis by blast
qed

text \<open>The claim as the specification states it fails: the number of tasks 0 is not
  refused; \<open>main\<close> runs the benchmark with it, which fails in the loop.\<close>

theorem task_count_counterexample:
  "main no_mp sum_registry tick_clock no_files (serial_opts 0) = ([], Some IndexError)"
proof -
  have "sum_registry \<noteq> []"
    by (simp add: sum_registry_def checksums_def)
  then have "do_benchmarking no_mp sum_registry tick_clock (serial_opts 0)
               (replicate (nat (1024 * 1024 * megabytes (serial_opts 0))) 0x20) =
             ([], Some IndexError)"
    by (intro serial_run_no_tasks) (simp_all add: serial_opts_def)
  then show ?thesis
    by (simp add: main_def serial_opts_def)
qed







end
